theory Spec2Isabelle
  imports Main "HOL-Library.AList"
begin

section \<open>Strings\<close>

text \<open>
  JavaScript strings are modelled as \<open>string\<close> (lists of characters).
  \<open>startsWith\<close> and \<open>endsWith\<close> follow \<^verbatim>\<open>String.prototype.startsWith\<close> and
  \<^verbatim>\<open>String.prototype.endsWith\<close> with no position argument.
\<close>

definition startsWith :: "string \<Rightarrow> string \<Rightarrow> bool" where
  "startsWith s p = (take (length p) s = p)"

definition endsWith :: "string \<Rightarrow> string \<Rightarrow> bool" where
  "endsWith s suf = (length suf \<le> length s \<and> drop (length s - length suf) s = suf)"

text \<open>The double quote character, written inside template literals of the source.\<close>

definition dquote :: string where
  "dquote = [CHR 0x22]"

section \<open>Tool catalog (ToolBridgeState.cachedTools)\<close>

text \<open>
  An \<^verbatim>\<open>AnthropicToolDefinition\<close> has a name, a description and an input schema.
  The schema plays no part in name resolution and is kept as an opaque text.
\<close>

record tool =
  name :: string
  description :: string
  input_schema :: string

text \<open>
  \<^verbatim>\<open>resolveToolName(name)\<close> reads only \<^verbatim>\<open>this.cachedTools\<close>, passed here as \<open>ts\<close>:
  \<^verbatim>\<open>if (this.cachedTools.some((t) => t.name === name)) return name;\<close>
  \<^verbatim>\<open>const matches = this.cachedTools.filter((t) => t.name.endsWith(`__${name}`));\<close>
  \<^verbatim>\<open>if (matches.length === 1) return matches[0].name; return name;\<close>
\<close>

definition resolveToolName :: "tool list \<Rightarrow> string \<Rightarrow> string" where
  "resolveToolName ts nm =
     (if list_ex (\<lambda>t. name t = nm) ts then nm
      else (let suffix = ''__'' @ nm;
                matches = filter (\<lambda>t. endsWith (name t) suffix) ts
            in (case matches of [m] \<Rightarrow> name m | _ \<Rightarrow> nm)))"

section \<open>Tool bridge state (class ToolBridgeState)\<close>

text \<open>
  The callbacks handed to \<^verbatim>\<open>registerMCPRequest\<close> are the two functions of a promise.
  \<open>Resolve k\<close> and \<open>Reject k\<close> are the resolve and the reject function of promise \<open>k\<close>.
  Calling a callback, clearing a timer and firing the session-end callback are the effects
  of the class on its environment; they are recorded, in order, in a trace.
\<close>

datatype callback = Resolve nat | Reject nat

datatype event =
    Called callback string
  | ClearTimeout nat
  | SessionEnd nat

text \<open>\<^verbatim>\<open>interface PendingMCPRequest\<close>; \<open>timeout\<close> is the handle returned by \<^verbatim>\<open>setTimeout\<close>.\<close>

record pending =
  toolCallId :: string
  resolve :: callback
  reject :: callback
  timeout :: nat

text \<open>
  The fields of the class, followed by the part of the JavaScript runtime the class acts
  on.  The two \<^verbatim>\<open>Map\<close>s are association lists in insertion order, updated with
  \<open>AList.update\<close> (an existing key keeps its place, a new key goes last, as
  \<^verbatim>\<open>Map.prototype.set\<close> does).  \<open>p_onSessionEnd\<close>, \<open>p_sessionActive\<close> and \<open>p_hadError\<close>
  are the private fields \<^verbatim>\<open>_onSessionEnd\<close>, \<^verbatim>\<open>_sessionActive\<close> and \<^verbatim>\<open>_hadError\<close>.
  \<open>timers\<close> maps the handle of every timer that is still running to what its callback
  captured (the tool-call id and the reject function); \<open>nextTimer\<close> is the next handle
  \<^verbatim>\<open>setTimeout\<close> returns.  The fields \<^verbatim>\<open>reply\<close> and \<^verbatim>\<open>streamingDone\<close> hold the HTTP reply and
  the streaming rendezvous and are not touched by any operation below.
\<close>

record state =
  cachedTools :: "tool list"
  expectedByName :: "(string \<times> string list) list"
  pendingByCallId :: "(string \<times> pending) list"
  p_onSessionEnd :: "nat option"
  p_sessionActive :: bool
  p_hadError :: bool
  timers :: "nat \<Rightarrow> (string \<times> callback) option"
  nextTimer :: nat
  trace :: "event list"

definition initial :: state where
  "initial = \<lparr>cachedTools = [], expectedByName = [], pendingByCallId = [],
     p_onSessionEnd = None, p_sessionActive = False, p_hadError = False,
     timers = (\<lambda>h. None), nextTimer = 0, trace = []\<rparr>"

definition cacheTools :: "tool list \<Rightarrow> state \<Rightarrow> state" where
  "cacheTools ts s = s\<lparr>cachedTools := ts\<rparr>"

definition getCachedTools :: "state \<Rightarrow> tool list" where
  "getCachedTools s = cachedTools s"

definition onSessionEnd :: "nat \<Rightarrow> state \<Rightarrow> state" where
  "onSessionEnd cb s = s\<lparr>p_onSessionEnd := Some cb\<rparr>"

definition hasPendingToolCall :: "string \<Rightarrow> state \<Rightarrow> bool" where
  "hasPendingToolCall cid s =
     (if map_of (pendingByCallId s) cid \<noteq> None then True
      else list_ex (\<lambda>(n, queue). cid \<in> set queue) (expectedByName s))"

definition hasExpectedTool :: "string \<Rightarrow> state \<Rightarrow> bool" where
  "hasExpectedTool nm s =
     (case map_of (expectedByName s) nm of None \<Rightarrow> False | Some queue \<Rightarrow> length queue > 0)"

text \<open>
  \<^verbatim>\<open>registerExpected(toolCallId, toolName)\<close>: push on the queue of the name, or create it.
\<close>

definition registerExpected :: "string \<Rightarrow> string \<Rightarrow> state \<Rightarrow> state" where
  "registerExpected cid toolName s =
     (case map_of (expectedByName s) toolName of
        Some queue \<Rightarrow> s\<lparr>expectedByName := AList.update toolName (queue @ [cid]) (expectedByName s)\<rparr>
      | None \<Rightarrow> s\<lparr>expectedByName := AList.update toolName [cid] (expectedByName s)\<rparr>)"

text \<open>
  \<^verbatim>\<open>addPending\<close>: start the timer (its callback captures the id and \<open>reject\<close>), then store
  the entry under the id.  The delay \<^verbatim>\<open>TOOL_TIMEOUT_MS\<close> is five minutes; time itself is
  not modelled, a running timer may fire at any later step (\<open>timeoutFires\<close>).
\<close>

definition addPending :: "string \<Rightarrow> callback \<Rightarrow> callback \<Rightarrow> state \<Rightarrow> state" where
  "addPending cid res rej s =
     (let h = nextTimer s in
      s\<lparr>timers := (timers s)(h \<mapsto> (cid, rej)),
        nextTimer := h + 1,
        pendingByCallId :=
          AList.update cid \<lparr>toolCallId = cid, resolve = res, reject = rej, timeout = h\<rparr>
            (pendingByCallId s)\<rparr>)"

text \<open>
  \<^verbatim>\<open>registerMCPRequest(name, resolve, reject)\<close>.  \<^verbatim>\<open>!queue?.length\<close> holds for an absent and
  for an empty queue.  \<^verbatim>\<open>queue.shift()\<close> changes the array stored in the map;
  \<^verbatim>\<open>if (!toolCallId) return\<close> is taken for the empty string, the only falsy string.
\<close>

definition registerMCPRequest :: "string \<Rightarrow> callback \<Rightarrow> callback \<Rightarrow> state \<Rightarrow> state" where
  "registerMCPRequest nm res rej s =
     (case map_of (expectedByName s) nm of
        None \<Rightarrow>
          s\<lparr>trace := trace s @ [Called rej (''No expected tool call for '' @ dquote @ nm @ dquote)]\<rparr>
      | Some [] \<Rightarrow>
          s\<lparr>trace := trace s @ [Called rej (''No expected tool call for '' @ dquote @ nm @ dquote)]\<rparr>
      | Some (cid # rest) \<Rightarrow>
          (let s1 = s\<lparr>expectedByName := AList.update nm rest (expectedByName s)\<rparr>;
               s2 = (if length rest = 0
                     then s1\<lparr>expectedByName := AList.delete nm (expectedByName s1)\<rparr>
                     else s1)
           in if cid = [] then s2 else addPending cid res rej s2))"

text \<open>
  The callback given to \<^verbatim>\<open>setTimeout\<close> in \<^verbatim>\<open>addPending\<close>, run by the runtime when timer
  \<open>h\<close> expires: \<^verbatim>\<open>this.pendingByCallId.delete(toolCallId); reject(new Error(...))\<close>.
  A cleared timer never fires.
\<close>

definition timeoutFires :: "nat \<Rightarrow> state \<Rightarrow> state" where
  "timeoutFires h s =
     (case timers s h of
        None \<Rightarrow> s
      | Some (cid, rej) \<Rightarrow>
          s\<lparr>timers := (timers s)(h := None),
            pendingByCallId := AList.delete cid (pendingByCallId s),
            trace := trace s @ [Called rej (''Tool call '' @ cid @ '' timed out'')]\<rparr>)"

text \<open>\<^verbatim>\<open>resolveToolCall(toolCallId, result)\<close> returns a boolean and the new state.\<close>

definition resolveToolCall :: "string \<Rightarrow> string \<Rightarrow> state \<Rightarrow> bool \<times> state" where
  "resolveToolCall cid result s =
     (case map_of (pendingByCallId s) cid of
        None \<Rightarrow> (False, s)
      | Some p \<Rightarrow>
          (True,
           s\<lparr>timers := (timers s)(timeout p := None),
             pendingByCallId := AList.delete cid (pendingByCallId s),
             trace := trace s @ [ClearTimeout (timeout p), Called (resolve p) result]\<rparr>))"

definition hasPending :: "state \<Rightarrow> bool" where
  "hasPending s = (length (pendingByCallId s) > 0 \<or> length (expectedByName s) > 0)"

definition sessionActive :: "state \<Rightarrow> bool" where
  "sessionActive s = p_sessionActive s"

definition hadError :: "state \<Rightarrow> bool" where
  "hadError s = p_hadError s"

definition markSessionErrored :: "state \<Rightarrow> state" where
  "markSessionErrored s = s\<lparr>p_hadError := True\<rparr>"

definition markSessionActive :: "state \<Rightarrow> state" where
  "markSessionActive s = s\<lparr>p_sessionActive := True\<rparr>"

text \<open>
  The loop \<^verbatim>\<open>for (const [, pending] of this.pendingByCallId)\<close> of \<^verbatim>\<open>markSessionInactive\<close>
  and \<^verbatim>\<open>cleanup\<close>: clear the timer of the entry, then call its reject with the message.
\<close>

fun rejectAll :: "string \<Rightarrow> (string \<times> pending) list \<Rightarrow> state \<Rightarrow> state" where
  "rejectAll msg [] s = s"
| "rejectAll msg ((cid, p) # ps) s =
     rejectAll msg ps
       (s\<lparr>timers := (timers s)(timeout p := None),
          trace := trace s @ [ClearTimeout (timeout p), Called (reject p) msg]\<rparr>)"

definition fireSessionEnd :: "state \<Rightarrow> state" where
  "fireSessionEnd s =
     (case p_onSessionEnd s of
        None \<Rightarrow> s
      | Some cb \<Rightarrow> s\<lparr>trace := trace s @ [SessionEnd cb], p_onSessionEnd := None\<rparr>)"

definition markSessionInactive :: "state \<Rightarrow> state" where
  "markSessionInactive s =
     (let s1 = s\<lparr>p_sessionActive := False\<rparr>;
          s2 = s1\<lparr>expectedByName := []\<rparr>;
          s3 = rejectAll ''Session ended'' (pendingByCallId s2) s2;
          s4 = s3\<lparr>pendingByCallId := []\<rparr>
      in fireSessionEnd s4)"

definition cleanup :: "state \<Rightarrow> state" where
  "cleanup s =
     (let s1 = s\<lparr>p_sessionActive := False\<rparr>;
          s2 = rejectAll ''Session cleanup'' (pendingByCallId s1) s1;
          s3 = s2\<lparr>pendingByCallId := []\<rparr>;
          s4 = s3\<lparr>expectedByName := []\<rparr>
      in fireSessionEnd s4)"

subsection \<open>Sequences of operations\<close>

text \<open>
  An operation on one state.  Every \<open>RegisterMCPRequest\<close> comes with a promise of its own,
  as in the route \<^verbatim>\<open>POST /internal/tool-call\<close>:
  \<^verbatim>\<open>new Promise((resolve, reject) => { state.registerMCPRequest(name, resolve, reject); })\<close>.
  A run carries the number of promises created so far; the next request gets
  \<open>Resolve k\<close> and \<open>Reject k\<close> for that number \<open>k\<close>.
\<close>

datatype op =
    RegisterExpected string string
  | RegisterMCPRequest string
  | ResolveToolCall string string
  | MarkSessionInactive
  | TimeoutFires nat

fun step :: "op \<Rightarrow> nat \<times> state \<Rightarrow> nat \<times> state" where
  "step (RegisterExpected cid nm) (k, s) = (k, registerExpected cid nm s)"
| "step (RegisterMCPRequest nm) (k, s) = (Suc k, registerMCPRequest nm (Resolve k) (Reject k) s)"
| "step (ResolveToolCall cid result) (k, s) = (k, snd (resolveToolCall cid result s))"
| "step MarkSessionInactive (k, s) = (k, markSessionInactive s)"
| "step (TimeoutFires h) (k, s) = (k, timeoutFires h s)"

definition run :: "op list \<Rightarrow> nat \<times> state" where
  "run ops = fold step ops (0, initial)"

text \<open>How many times a callback of promise \<open>k\<close> has been called in a trace.\<close>

fun callsOf :: "nat \<Rightarrow> event \<Rightarrow> bool" where
  "callsOf k (Called (Resolve j) x) = (j = k)"
| "callsOf k (Called (Reject j) x) = (j = k)"
| "callsOf k (ClearTimeout h) = False"
| "callsOf k (SessionEnd c) = False"

definition settled :: "nat \<Rightarrow> event list \<Rightarrow> nat" where
  "settled k t = length (filter (callsOf k) t)"

text \<open>The queue of a tool name; an absent queue has no element.\<close>

definition queueOf :: "state \<Rightarrow> string \<Rightarrow> string list" where
  "queueOf s nm = (case map_of (expectedByName s) nm of None \<Rightarrow> [] | Some queue \<Rightarrow> queue)"


section \<open>Messages handler (createMessagesHandler)\<close>

text \<open>
  An Anthropic messages request.  Message content is a plain string or a list of blocks.
  \<^verbatim>\<open>AnthropicMessagesRequestSchema\<close> is declared in another module
  (\<^verbatim>\<open>schemas/anthropic.js\<close>); the handler is given the outcome of \<^verbatim>\<open>safeParse\<close>: \<open>None\<close>
  when parsing fails, the parsed request otherwise.
\<close>

datatype block =
    TextBlock string
  | ToolUseBlock string string
  | ToolResultBlock string string

datatype content = Plain string | Blocks "block list"

record message =
  msg_role :: string
  msg_content :: content

record request =
  req_model :: string
  req_messages :: "message list"
  req_tools :: "tool list option"

text \<open>
  The branch \<^verbatim>\<open>handleMessages\<close> takes.  After a failed parse it answers 400.  Otherwise
  \<^verbatim>\<open>if (state.hasPending || state.sessionActive)\<close> selects the continuation branch
  (attach the reply, resolve tool results, wait for the stream to finish); every other
  request goes on to build a prompt and a session.  The state object of the handler
  offers the members of \<^verbatim>\<open>ToolBridgeState\<close> used here.
\<close>

datatype branch = BadRequest | Continuation | NewSession

definition handleMessages_branch :: "request option \<Rightarrow> state \<Rightarrow> branch" where
  "handleMessages_branch parseResult s =
     (case parseResult of
        None \<Rightarrow> BadRequest
      | Some req \<Rightarrow> (if hasPending s \<or> sessionActive s then Continuation else NewSession))"

text \<open>
  The condition of the claim on the request: there is a last message, its role is
  \<^verbatim>\<open>"user"\<close> and its content is a plain string.
\<close>

definition lastIsPlainUser :: "request \<Rightarrow> bool" where
  "lastIsPlainUser req =
     (case rev (req_messages req) of
        [] \<Rightarrow> False
      | m # ms \<Rightarrow> msg_role m = ''user'' \<and> (case msg_content m of Plain t \<Rightarrow> True | Blocks bs \<Rightarrow> False))"

section \<open>Session configuration (createSessionConfig)\<close>

text \<open>
  The parts of \<^verbatim>\<open>ServerConfig\<close> read by the pre-tool-use hook.  \<open>mcpServers\<close> lists the
  entries of the object in the order of \<^verbatim>\<open>Object.entries\<close>; \<open>allowedTools\<close> is optional.
\<close>

record mcpServer =
  command :: string
  args :: "string list"
  allowedTools :: "string list option"

record serverConfig =
  mcpServers :: "(string \<times> mcpServer) list"
  allowedCliTools :: "string list"

datatype permissionDecision = Allow | Deny

text \<open>
  The loop \<^verbatim>\<open>for (const [serverName, server] of Object.entries(config.mcpServers))\<close>, with
  \<^verbatim>\<open>const allowlist = server.allowedTools ?? []\<close>; it returns at the first server that
  lists \<^verbatim>\<open>"*"\<close> or the tool.
\<close>

fun allowedByServer :: "(string \<times> mcpServer) list \<Rightarrow> string \<Rightarrow> bool" where
  "allowedByServer [] toolName = False"
| "allowedByServer ((serverName, server) # rest) toolName =
     (let allowlist = (case allowedTools server of None \<Rightarrow> [] | Some l \<Rightarrow> l)
      in if ''*'' \<in> set allowlist \<or> toolName \<in> set allowlist then True
         else allowedByServer rest toolName)"

text \<open>
  \<^verbatim>\<open>hooks.onPreToolUse\<close> of the configuration built by \<^verbatim>\<open>createSessionConfig\<close>.  The
  option \<^verbatim>\<open>hasToolBridge\<close> may be missing; \<^verbatim>\<open>const hasBridge = !!hasToolBridge\<close>.
\<close>

definition onPreToolUse :: "bool option \<Rightarrow> serverConfig \<Rightarrow> string \<Rightarrow> permissionDecision" where
  "onPreToolUse hasToolBridge config toolName =
     (let hasBridge = (hasToolBridge = Some True) in
      if hasBridge \<and> startsWith toolName ''xcode-bridge-'' then Allow
      else if ''*'' \<in> set (allowedCliTools config) \<or> toolName \<in> set (allowedCliTools config)
        then Allow
      else if allowedByServer (mcpServers config) toolName then Allow
      else Deny)"

section \<open>Server (createServer)\<close>

text \<open>
  A request as the hooks see it; header names are in lower case, as Node delivers them.
  Of a reply only the status code and the body are recorded; its headers (the content
  type, the CORS headers) are not.  An \<^verbatim>\<open>onRequest\<close> hook either sends a reply itself
  and does not call \<^verbatim>\<open>done\<close>, which ends the request, or calls \<^verbatim>\<open>done()\<close>, which hands the
  request to the next hook and, after the last one, to the router.
\<close>

record httpRequest =
  http_method :: string
  http_url :: string
  http_headers :: "(string \<times> string) list"

record httpReply =
  http_code :: nat
  http_body :: string

datatype hookOutcome = Sent httpReply | Done

text \<open>The value of a header, the empty string when the header is missing.\<close>

definition headerOf :: "httpRequest \<Rightarrow> string \<Rightarrow> string" where
  "headerOf request h = (case map_of (http_headers request) h of None \<Rightarrow> [] | Some v \<Rightarrow> v)"

text \<open>
  \<^verbatim>\<open>createServer\<close> first registers the plugin \<^verbatim>\<open>@fastify/cors\<close> with
  \<^verbatim>\<open>{ origin: "*", methods: [...], allowedHeaders: [...] }\<close>.  The plugin is a library;
  its \<^verbatim>\<open>onRequest\<close> hook, with these options (preflight on, strict preflight on, success
  status 204), behaves as follows: every \<^verbatim>\<open>OPTIONS\<close> request is answered by the hook
  itself, with 400 and the text \<^verbatim>\<open>Invalid Preflight Request\<close> when the \<^verbatim>\<open>Origin\<close> or the
  \<^verbatim>\<open>Access-Control-Request-Method\<close> header is missing or empty, with 204 and no body
  otherwise; every other request gets CORS headers and is passed on.
\<close>

definition corsOnRequest :: "httpRequest \<Rightarrow> hookOutcome" where
  "corsOnRequest request =
     (if http_method request = ''OPTIONS''
      then (if headerOf request ''origin'' = []
               \<or> headerOf request ''access-control-request-method'' = []
            then Sent \<lparr>http_code = 400, http_body = ''Invalid Preflight Request''\<rparr>
            else Sent \<lparr>http_code = 204, http_body = []\<rparr>)
      else Done)"

text \<open>
  The hook added by \<^verbatim>\<open>app.addHook("onRequest", ...)\<close>:
  \<^verbatim>\<open>const ua = request.headers["user-agent"] ?? "";\<close>
  \<^verbatim>\<open>if (!ua.startsWith("Xcode/")) { reply.code(403)...send('{"error":"Forbidden"}\n'); return; }\<close>
  \<^verbatim>\<open>done();\<close>
\<close>

definition onRequest :: "httpRequest \<Rightarrow> hookOutcome" where
  "onRequest request =
     (let ua = (case map_of (http_headers request) ''user-agent'' of None \<Rightarrow> [] | Some v \<Rightarrow> v)
      in if \<not> startsWith ua ''Xcode/''
         then Sent \<lparr>http_code = 403,
                    http_body = ''{'' @ dquote @ ''error'' @ dquote @ '':'' @ dquote @ ''Forbidden''
                                  @ dquote @ ''}'' @ [CHR 0x0A]\<rparr>
         else Done)"

text \<open>
  What answers a request: the CORS hook, the user-agent hook, or, when both hooks have
  passed it on, the router, which runs the handler of the matching route
  (\<^verbatim>\<open>GET /v1/models\<close>, \<^verbatim>\<open>POST /v1/chat/completions\<close>) or the not-found handler.  Hooks run
  in the order of their registration, the CORS hook first.
\<close>

datatype served = ByCors httpReply | ByHook httpReply | Routed

definition serve :: "httpRequest \<Rightarrow> served" where
  "serve request =
     (case corsOnRequest request of
        Sent r \<Rightarrow> ByCors r
      | Done \<Rightarrow>
          (case onRequest request of
             Sent r \<Rightarrow> ByHook r
           | Done \<Rightarrow> Routed))"

section \<open>formatCompaction\<close>

text \<open>
  JavaScript values as \<^verbatim>\<open>formatCompaction\<close> can meet them in parsed event data: the
  primitives, arrays and objects with their own properties in order (no functions, no
  getters, no symbols, nothing added to the prototypes).  A number is written as
  \<^verbatim>\<open>String\<close> prints it, so \<open>JNum ''1200''\<close>, \<open>JNum ''1e+21''\<close>, \<open>JNum ''NaN''\<close>; both zeros
  print as \<^verbatim>\<open>0\<close>.
\<close>

datatype jsval =
    JUndefined
  | JNull
  | JBool bool
  | JNum string
  | JStr string
  | JArr "jsval list"
  | JObj "(string \<times> jsval) list"

datatype jsError = TypeError

text \<open>
  \<^verbatim>\<open>String(v)\<close>, which may throw.  An array prints its elements separated by commas,
  \<^verbatim>\<open>null\<close> and \<^verbatim>\<open>undefined\<close> elements as nothing.  An object is converted by its
  \<^verbatim>\<open>toString\<close>: the inherited one prints \<^verbatim>\<open>[object Object]\<close>; an own property
  \<^verbatim>\<open>toString\<close> hides it and, holding no function, cannot be called, and as
  \<^verbatim>\<open>valueOf\<close> (own and not callable, or inherited and returning the object) gives no
  primitive either, the conversion throws a \<^verbatim>\<open>TypeError\<close>.
\<close>

fun jsString :: "jsval \<Rightarrow> jsError + string" and jsJoin :: "jsval list \<Rightarrow> jsError + string" where
  "jsString JUndefined = Inr ''undefined''"
| "jsString JNull = Inr ''null''"
| "jsString (JBool b) = Inr (if b then ''true'' else ''false'')"
| "jsString (JNum t) = Inr t"
| "jsString (JStr s) = Inr s"
| "jsString (JArr xs) = jsJoin xs"
| "jsString (JObj ps) =
     (if map_of ps ''toString'' \<noteq> None then Inl TypeError else Inr ''[object Object]'')"
| "jsJoin [] = Inr []"
| "jsJoin [x] = (if x = JUndefined \<or> x = JNull then Inr [] else jsString x)"
| "jsJoin (x # y # ys) =
     (case (if x = JUndefined \<or> x = JNull then Inr [] else jsString x) of
        Inl e \<Rightarrow> Inl e
      | Inr a \<Rightarrow> (case jsJoin (y # ys) of Inl e \<Rightarrow> Inl e | Inr b \<Rightarrow> Inr (a @ '','' @ b)))"

text \<open>
  \<^verbatim>\<open>!v\<close>: the falsy values are undefined, null, false, the zeros, NaN and the empty
  string.
\<close>

fun falsy :: "jsval \<Rightarrow> bool" where
  "falsy JUndefined = True"
| "falsy JNull = True"
| "falsy (JBool b) = (\<not> b)"
| "falsy (JNum t) = (t = ''0'' \<or> t = ''NaN'')"
| "falsy (JStr s) = (s = [])"
| "falsy (JArr xs) = False"
| "falsy (JObj ps) = False"

text \<open>\<^verbatim>\<open>typeof v === "object"\<close> holds for null, arrays and objects.\<close>

fun typeofObject :: "jsval \<Rightarrow> bool" where
  "typeofObject JNull = True"
| "typeofObject (JArr xs) = True"
| "typeofObject (JObj ps) = True"
| "typeofObject v = False"

text \<open>
  \<^verbatim>\<open>key in v\<close> and \<^verbatim>\<open>v[key]\<close> for a key that is neither an index nor \<^verbatim>\<open>length\<close> nor a
  member of a prototype; both are applied to objects and arrays only.
\<close>

fun hasKey :: "string \<Rightarrow> jsval \<Rightarrow> bool" where
  "hasKey k (JObj ps) = (map_of ps k \<noteq> None)"
| "hasKey k v = False"

fun getKey :: "jsval \<Rightarrow> string \<Rightarrow> jsval" where
  "getKey (JObj ps) k = (case map_of ps k of None \<Rightarrow> JUndefined | Some v \<Rightarrow> v)"
| "getKey v k = JUndefined"

text \<open>
  The template literal \<^verbatim>\<open>`${String(a)} to ${String(b)} tokens`\<close>: \<open>a\<close> is converted
  first, then \<open>b\<close>; the first conversion that throws ends the evaluation.
\<close>

definition tokensText :: "jsval \<Rightarrow> jsval \<Rightarrow> jsError + string" where
  "tokensText a b =
     (case jsString a of
        Inl e \<Rightarrow> Inl e
      | Inr x \<Rightarrow> (case jsString b of Inl e \<Rightarrow> Inl e | Inr y \<Rightarrow> Inr (x @ '' to '' @ y @ '' tokens'')))"

text \<open>\<^verbatim>\<open>formatCompaction\<close> of \<^verbatim>\<open>src/unnamed/part_002\<close>: the guard tests the value only.\<close>

definition formatCompaction_cast :: "jsval \<Rightarrow> jsError + string" where
  "formatCompaction_cast data =
     (if falsy data \<or> \<not> typeofObject data then Inr ''compaction data unavailable''
      else tokensText (getKey data ''preCompactionTokens'') (getKey data ''postCompactionTokens''))"

text \<open>
  \<^verbatim>\<open>formatCompaction\<close> of \<^verbatim>\<open>src/src/handlers/streaming-utils.ts\<close>: the guard also tests
  that both keys are in the value.
\<close>

definition formatCompaction_guarded :: "jsval \<Rightarrow> jsError + string" where
  "formatCompaction_guarded data =
     (if falsy data \<or> \<not> typeofObject data
         \<or> \<not> hasKey ''preCompactionTokens'' data
         \<or> \<not> hasKey ''postCompactionTokens'' data
      then Inr ''compaction data unavailable''
      else tokensText (getKey data ''preCompactionTokens'') (getKey data ''postCompactionTokens''))"

section \<open>Auxiliary notions for the proofs\<close>

text \<open>
  What the loop of \<open>rejectAll\<close> adds to the trace: for every entry, in order, the
  clearing of its timer and the call of its reject.
\<close>

definition rejections :: "string \<Rightarrow> (string \<times> pending) list \<Rightarrow> event list" where
  "rejections msg ps = concat (map (\<lambda>(cid, p). [ClearTimeout (timeout p), Called (reject p) msg]) ps)"

text \<open>
  A state with one parked request: the session is active, \<open>tc1\<close> was expected for
  \<open>Read\<close> and has been promoted for promise \<open>0\<close>, and a session-end callback is set.
\<close>

definition parked :: state where
  "parked = onSessionEnd 7 (registerMCPRequest ''Read'' (Resolve 0) (Reject 0)
              (registerExpected ''tc1'' ''Read'' (markSessionActive initial)))"

text \<open>
  The invariant of every run, for \<open>n\<close> promises created so far.  A running timer has a
  handle below \<open>nextTimer\<close> and holds the reject of a promise that has not been settled;
  no two running timers hold the same reject; every pending entry is stored under its
  own id, with its timer running and the two callbacks of one promise; the keys of the
  pending table are distinct; no promise is settled twice, and none before it exists.
\<close>

definition inv1 :: "nat \<Rightarrow> state \<Rightarrow> bool" where
  "inv1 n s =
     ((\<forall>h cid cb. timers s h = Some (cid, cb) \<longrightarrow>
         h < nextTimer s \<and> (\<exists>k<n. cb = Reject k \<and> settled k (trace s) = 0)) \<and>
      (\<forall>h h' cid cid' cb. timers s h = Some (cid, cb) \<longrightarrow> timers s h' = Some (cid', cb) \<longrightarrow> h = h') \<and>
      (\<forall>cid p. map_of (pendingByCallId s) cid = Some p \<longrightarrow>
         timers s (timeout p) = Some (cid, reject p) \<and>
         (\<exists>k. resolve p = Resolve k \<and> reject p = Reject k)) \<and>
      distinct (map fst (pendingByCallId s)) \<and>
      (\<forall>k. settled k (trace s) \<le> 1) \<and>
      (\<forall>k\<ge>n. settled k (trace s) = 0))"










text \<open>
  Two sequences on which a promise is lost.  In \<open>emptyIdOps\<close> the empty id is
  registered and requested.  In \<open>repeatedIdOps\<close> the id \<open>tc1\<close> is registered twice and
  requested twice, then the session ends.
\<close>

definition emptyIdOps :: "op list" where
  "emptyIdOps = [RegisterExpected [] ''Read'', RegisterMCPRequest ''Read'']"


text \<open>
  Promise \<open>k\<close> is forgotten: neither of its callbacks has been called, no running
  timer holds its reject and no pending entry holds it.
\<close>

definition forgotten :: "nat \<Rightarrow> state \<Rightarrow> bool" where
  "forgotten k s =
     (settled k (trace s) = 0 \<and>
      (\<forall>h cid. timers s h \<noteq> Some (cid, Reject k)) \<and>
      (\<forall>cid p. map_of (pendingByCallId s) cid = Some p \<longrightarrow> reject p \<noteq> Reject k))"

section \<open>Properties of name resolution\<close>

lemma filter_single_index:
  assumes "filter P xs = [m]"
  shows "\<exists>i. i < length xs \<and> xs ! i = m \<and> P m \<and> (\<forall>j < length xs. P (xs ! j) \<longrightarrow> j = i)"
  using assms
proof (induction xs)
  case Nil
  then show ?case by simp
next
  case (Cons x xs)
  show ?case
  proof (cases "P x")
    case True
    with Cons.prems have xm: "x = m" and none: "filter P xs = []" by auto
    from none have no: "\<forall>y \<in> set xs. \<not> P y" by (simp add: filter_empty_conv)
    have "\<forall>j < length (x # xs). P ((x # xs) ! j) \<longrightarrow> j = 0"
    proof (intro allI impI)
      fix j assume j: "j < length (x # xs)" and p: "P ((x # xs) ! j)"
      show "j = 0"
      proof (cases j)
        case 0 then show ?thesis .
      next
        case (Suc k)
        with j have "xs ! k \<in> set xs" by simp
        with no p Suc show ?thesis by simp
      qed
    qed
    with True xm show ?thesis by (intro exI[of _ 0]) simp
  next
    case False
    with Cons.prems have "filter P xs = [m]" by simp
    from Cons.IH[OF this] obtain i where i: "i < length xs" "xs ! i = m" "P m"
      and u: "\<forall>j < length xs. P (xs ! j) \<longrightarrow> j = i" by blast
    have "\<forall>j < length (x # xs). P ((x # xs) ! j) \<longrightarrow> j = Suc i"
    proof (intro allI impI)
      fix j assume j: "j < length (x # xs)" and p: "P ((x # xs) ! j)"
      show "j = Suc i"
      proof (cases j)
        case 0 with p False show ?thesis by simp
      next
        case (Suc k)
        with j p u show ?thesis by simp
      qed
    qed
    with i show ?thesis by (intro exI[of _ "Suc i"]) simp
  qed
qed

lemma unique_index_filter:
  assumes "i < length xs" "P (xs ! i)" "\<forall>j < length xs. P (xs ! j) \<longrightarrow> j = i"
  shows "filter P xs = [xs ! i]"
  using assms
proof (induction xs arbitrary: i)
  case Nil
  then show ?case by simp
next
  case (Cons x xs)
  show ?case
  proof (cases i)
    case 0
    have "\<forall>y \<in> set xs. \<not> P y"
    proof
      fix y assume "y \<in> set xs"
      then obtain k where k: "k < length xs" "xs ! k = y" by (auto simp: in_set_conv_nth)
      show "\<not> P y"
      proof
        assume "P y"
        with k have "Suc k < length (x # xs) \<and> P ((x # xs) ! Suc k)" by simp
        with Cons.prems(3) 0 show False by blast
      qed
    qed
    then have "filter P xs = []" by (simp add: filter_empty_conv)
    with 0 Cons.prems(2) show ?thesis by simp
  next
    case (Suc k)
    have nx: "\<not> P x"
    proof
      assume "P x"
      then have "0 < length (x # xs) \<and> P ((x # xs) ! 0)" by simp
      with Cons.prems(3) Suc show False by blast
    qed
    have "\<forall>j < length xs. P (xs ! j) \<longrightarrow> j = k"
    proof (intro allI impI)
      fix j assume "j < length xs" "P (xs ! j)"
      then have "Suc j < length (x # xs) \<and> P ((x # xs) ! Suc j)" by simp
      with Cons.prems(3) Suc show "j = k" by blast
    qed
    then have u: "\<forall>j < length xs. P (xs ! j) \<longrightarrow> j = k" .
    from Cons.prems(1) Suc have kl: "k < length xs" by simp
    from Cons.prems(2) Suc have pk: "P (xs ! k)" by simp
    from Cons.IH[OF kl pk u] have "filter P xs = [xs ! k]" .
    with nx Suc show ?thesis by simp
  qed
qed


lemma resolveToolName_exact:
  "\<exists>t \<in> set ts. name t = nm \<Longrightarrow> resolveToolName ts nm = nm"
  by (simp add: resolveToolName_def list_ex_iff)

lemma resolveToolName_cases:
  "resolveToolName ts nm = nm \<or>
   (\<exists>m \<in> set ts. resolveToolName ts nm = name m)"
proof (cases "filter (\<lambda>t. endsWith (name t) (''__'' @ nm)) ts")
  case Nil
  then show ?thesis by (simp add: resolveToolName_def)
next
  case (Cons m ms)
  then have "m \<in> set (filter (\<lambda>t. endsWith (name t) (''__'' @ nm)) ts)" by simp
  then have "m \<in> set ts" by simp
  with Cons show ?thesis
    by (cases ms) (auto simp: resolveToolName_def)
qed

text \<open>
  C7. \<^verbatim>\<open>resolveToolName(name)\<close> returns \<open>name\<close> when some cached tool is called exactly
  \<open>name\<close>; otherwise, when exactly one entry of the catalog has a name ending with
  \<open>"__" + name\<close>, it returns the full name of that entry; otherwise (no such entry, or
  more than one) it returns \<open>name\<close> unchanged.  "Exactly one entry" is stated on the
  positions of the catalog.
\<close>

theorem resolveToolName_spec:
  "((\<exists>t \<in> set ts. name t = nm) \<longrightarrow> resolveToolName ts nm = nm) \<and>
   (\<not> (\<exists>t \<in> set ts. name t = nm) \<longrightarrow>
      (\<forall>i < length ts.
         endsWith (name (ts ! i)) (''__'' @ nm) \<and>
         (\<forall>j < length ts. endsWith (name (ts ! j)) (''__'' @ nm) \<longrightarrow> j = i)
         \<longrightarrow> resolveToolName ts nm = name (ts ! i))) \<and>
   (\<not> (\<exists>t \<in> set ts. name t = nm) \<and>
    \<not> (\<exists>i < length ts.
         endsWith (name (ts ! i)) (''__'' @ nm) \<and>
         (\<forall>j < length ts. endsWith (name (ts ! j)) (''__'' @ nm) \<longrightarrow> j = i))
      \<longrightarrow> resolveToolName ts nm = nm)"
proof (intro conjI impI allI)
  assume "\<exists>t \<in> set ts. name t = nm"
  then show "resolveToolName ts nm = nm" by (rule resolveToolName_exact)
next
  fix i
  assume ne: "\<not> (\<exists>t \<in> set ts. name t = nm)" and i: "i < length ts"
    and u: "endsWith (name (ts ! i)) (''__'' @ nm) \<and>
         (\<forall>j < length ts. endsWith (name (ts ! j)) (''__'' @ nm) \<longrightarrow> j = i)"
  from u have e: "endsWith (name (ts ! i)) (''__'' @ nm)"
    and a: "\<forall>j < length ts. endsWith (name (ts ! j)) (''__'' @ nm) \<longrightarrow> j = i"
    by blast+
  have "filter (\<lambda>t. endsWith (name t) (''__'' @ nm)) ts = [ts ! i]"
    by (rule unique_index_filter[where P = "\<lambda>t. endsWith (name t) (''__'' @ nm)", OF i e a])
  with ne show "resolveToolName ts nm = name (ts ! i)"
    by (simp add: resolveToolName_def list_ex_iff)
next
  assume h: "\<not> (\<exists>t \<in> set ts. name t = nm) \<and>
    \<not> (\<exists>i < length ts.
         endsWith (name (ts ! i)) (''__'' @ nm) \<and>
         (\<forall>j < length ts. endsWith (name (ts ! j)) (''__'' @ nm) \<longrightarrow> j = i))"
  show "resolveToolName ts nm = nm"
  proof (cases "filter (\<lambda>t. endsWith (name t) (''__'' @ nm)) ts")
    case Nil
    then show ?thesis by (simp add: resolveToolName_def)
  next
    case (Cons m ms)
    show ?thesis
    proof (cases ms)
      case Nil
      with Cons have "filter (\<lambda>t. endsWith (name t) (''__'' @ nm)) ts = [m]" by simp
      from filter_single_index[OF this] h show ?thesis by blast
    next
      case (Cons m' ms')
      with \<open>filter (\<lambda>t. endsWith (name t) (''__'' @ nm)) ts = m # ms\<close>
      show ?thesis by (simp add: resolveToolName_def)
    qed
  qed
qed

theorem resolveToolName_spec_witness:
  "\<not> (\<exists>t \<in> set [\<lparr>name = ''mcp__xcode-tools__XcodeRead'', description = ''Read a file'', input_schema = ''{}''\<rparr>].
        name t = ''XcodeRead'') \<and>
   resolveToolName [\<lparr>name = ''mcp__xcode-tools__XcodeRead'', description = ''Read a file'', input_schema = ''{}''\<rparr>]
     ''XcodeRead'' = ''mcp__xcode-tools__XcodeRead'' \<and>
   resolveToolName [\<lparr>name = ''mcp__xcode-tools__XcodeRead'', description = ''Read a file'', input_schema = ''{}''\<rparr>]
     ''mcp__xcode-tools__XcodeRead'' = ''mcp__xcode-tools__XcodeRead''"
  using resolveToolName_spec
          [of "[\<lparr>name = ''mcp__xcode-tools__XcodeRead'', description = ''Read a file'', input_schema = ''{}''\<rparr>]"
              "''XcodeRead''"]
        resolveToolName_spec
          [of "[\<lparr>name = ''mcp__xcode-tools__XcodeRead'', description = ''Read a file'', input_schema = ''{}''\<rparr>]"
              "''mcp__xcode-tools__XcodeRead''"]
  by (simp add: endsWith_def)

text \<open>
  C9. \<^verbatim>\<open>resolveToolName\<close> is idempotent for every catalog and every name: resolving an
  already resolved name gives the same name again.
\<close>

theorem resolveToolName_idempotent:
  "resolveToolName ts (resolveToolName ts nm) = resolveToolName ts nm"
proof -
  from resolveToolName_cases[of ts nm]
  show ?thesis
  proof
    assume "resolveToolName ts nm = nm"
    then show ?thesis by simp
  next
    assume "\<exists>m \<in> set ts. resolveToolName ts nm = name m"
    then obtain m where m: "m \<in> set ts" "resolveToolName ts nm = name m" by blast
    from m(1) have "resolveToolName ts (name m) = name m"
      by (intro resolveToolName_exact) blast
    with m(2) show ?thesis by simp
  qed
qed

section \<open>The pre-tool-use hook\<close>

lemma allowedByServer_iff:
  "allowedByServer servers toolName =
     (\<exists>(serverName, server) \<in> set servers.
        ''*'' \<in> set (case allowedTools server of None \<Rightarrow> [] | Some l \<Rightarrow> l) \<or>
        toolName \<in> set (case allowedTools server of None \<Rightarrow> [] | Some l \<Rightarrow> l))"
  by (induction servers toolName rule: allowedByServer.induct) (auto simp: Let_def)

text \<open>
  C6, as stated, fails: the prefix \<^verbatim>\<open>xcode-bridge-\<close> alone does not make the hook allow
  a tool.  For a configuration built without \<^verbatim>\<open>hasToolBridge\<close> and with empty allowlists
  the tool \<^verbatim>\<open>xcode-bridge-Read\<close> is denied.
\<close>

theorem onPreToolUse_bridge_off_counterexample:
  "startsWith ''xcode-bridge-Read'' ''xcode-bridge-'' \<and>
   onPreToolUse None \<lparr>mcpServers = [], allowedCliTools = []\<rparr> ''xcode-bridge-Read'' = Deny"
  by (simp add: onPreToolUse_def startsWith_def)

text \<open>
  C6, amended.  The hook returns allow exactly when the tool bridge is on
  (\<^verbatim>\<open>hasToolBridge\<close> is true) and the tool name begins with \<^verbatim>\<open>xcode-bridge-\<close>, or the
  name or \<^verbatim>\<open>"*"\<close> is in \<^verbatim>\<open>allowedCliTools\<close>, or the name or \<^verbatim>\<open>"*"\<close> is in the
  \<^verbatim>\<open>allowedTools\<close> of some configured MCP server; for every other tool name it
  returns deny.
\<close>

theorem onPreToolUse_allow_iff:
  "(onPreToolUse hasToolBridge config toolName = Allow) =
     ((hasToolBridge = Some True \<and> startsWith toolName ''xcode-bridge-'') \<or>
      ''*'' \<in> set (allowedCliTools config) \<or> toolName \<in> set (allowedCliTools config) \<or>
      (\<exists>(serverName, server) \<in> set (mcpServers config).
         ''*'' \<in> set (case allowedTools server of None \<Rightarrow> [] | Some l \<Rightarrow> l) \<or>
         toolName \<in> set (case allowedTools server of None \<Rightarrow> [] | Some l \<Rightarrow> l))) \<and>
   (onPreToolUse hasToolBridge config toolName \<noteq> Allow \<longrightarrow>
      onPreToolUse hasToolBridge config toolName = Deny)"
proof -
  have "onPreToolUse hasToolBridge config toolName \<noteq> Allow \<longrightarrow>
      onPreToolUse hasToolBridge config toolName = Deny"
    by (cases "onPreToolUse hasToolBridge config toolName") simp_all
  moreover have "(onPreToolUse hasToolBridge config toolName = Allow) =
     ((hasToolBridge = Some True \<and> startsWith toolName ''xcode-bridge-'') \<or>
      ''*'' \<in> set (allowedCliTools config) \<or> toolName \<in> set (allowedCliTools config) \<or>
      allowedByServer (mcpServers config) toolName)"
    by (simp add: onPreToolUse_def Let_def)
  ultimately show ?thesis by (simp only: allowedByServer_iff)
qed

theorem onPreToolUse_allow_iff_witness:
  "onPreToolUse (Some True) \<lparr>mcpServers = [], allowedCliTools = []\<rparr> ''xcode-bridge-Read'' = Allow \<and>
   onPreToolUse (Some True)
     \<lparr>mcpServers = [(''xcode'', \<lparr>command = ''node'', args = [], allowedTools = Some [''XcodeBuild'']\<rparr>)],
      allowedCliTools = [''glob'']\<rparr> ''XcodeBuild'' = Allow \<and>
   onPreToolUse None
     \<lparr>mcpServers = [(''xcode'', \<lparr>command = ''node'', args = [], allowedTools = Some [''XcodeBuild'']\<rparr>)],
      allowedCliTools = [''glob'']\<rparr> ''XcodeTest'' = Deny"
  using onPreToolUse_allow_iff [of "Some True" "\<lparr>mcpServers = [], allowedCliTools = []\<rparr>" "''xcode-bridge-Read''"]
    onPreToolUse_allow_iff [of "Some True" "\<lparr>mcpServers = [(''xcode'', \<lparr>command = ''node'', args = [], allowedTools = Some [''XcodeBuild'']\<rparr>)],
      allowedCliTools = [''glob'']\<rparr>" "''XcodeBuild''"]
    onPreToolUse_allow_iff [of None "\<lparr>mcpServers = [(''xcode'', \<lparr>command = ''node'', args = [], allowedTools = Some [''XcodeBuild'']\<rparr>)],
      allowedCliTools = [''glob'']\<rparr>" "''XcodeTest''"]
  by (simp add: startsWith_def)

section \<open>The user-agent check\<close>

text \<open>
  C8, as stated, fails: an \<^verbatim>\<open>OPTIONS\<close> request never reaches the user-agent hook.  A
  preflight for \<^verbatim>\<open>/v1/models\<close> sent by \<^verbatim>\<open>curl/8.0\<close> is answered by the CORS hook with
  204 and no body, not with 403.
\<close>

theorem serve_options_counterexample:
  "\<not> startsWith ''curl/8.0'' ''Xcode/'' \<and>
   serve \<lparr>http_method = ''OPTIONS'', http_url = ''/v1/models'',
          http_headers = [(''user-agent'', ''curl/8.0''), (''origin'', ''http://localhost''),
                          (''access-control-request-method'', ''GET'')]\<rparr>
     = ByCors \<lparr>http_code = 204, http_body = []\<rparr>"
  by (simp add: serve_def corsOnRequest_def headerOf_def startsWith_def)

text \<open>
  C8, amended.  For every HTTP request other than an \<^verbatim>\<open>OPTIONS\<close> request whose
  \<^verbatim>\<open>User-Agent\<close> header is missing or does not start with \<^verbatim>\<open>Xcode/\<close>, the response is
  status 403 with the body \<^verbatim>\<open>{"error":"Forbidden"}\<close> (followed by a line feed).  An
  \<^verbatim>\<open>OPTIONS\<close> request with such a header is answered by the CORS hook, with 204 and no
  body, or with 400 and \<^verbatim>\<open>Invalid Preflight Request\<close> when its \<^verbatim>\<open>Origin\<close> or
  \<^verbatim>\<open>Access-Control-Request-Method\<close> header is missing or empty.  In both cases no route
  handler runs.
\<close>

theorem onRequest_forbidden:
  assumes "\<not> startsWith (case map_of (http_headers request) ''user-agent'' of None \<Rightarrow> [] | Some v \<Rightarrow> v) ''Xcode/''"
  shows "(http_method request \<noteq> ''OPTIONS'' \<longrightarrow>
            serve request =
              ByHook \<lparr>http_code = 403,
                      http_body = ''{'' @ dquote @ ''error'' @ dquote @ '':'' @ dquote @ ''Forbidden''
                                    @ dquote @ ''}'' @ [CHR 0x0A]\<rparr>) \<and>
         (http_method request = ''OPTIONS'' \<longrightarrow>
            serve request =
              (if headerOf request ''origin'' = []
                  \<or> headerOf request ''access-control-request-method'' = []
               then ByCors \<lparr>http_code = 400, http_body = ''Invalid Preflight Request''\<rparr>
               else ByCors \<lparr>http_code = 204, http_body = []\<rparr>)) \<and>
         serve request \<noteq> Routed"
  using assms by (simp add: serve_def corsOnRequest_def onRequest_def Let_def)

theorem onRequest_forbidden_witness:
  "\<not> startsWith (case map_of (http_headers \<lparr>http_method = ''GET'', http_url = ''/v1/models'',
         http_headers = [(''user-agent'', ''curl/8.0'')]\<rparr>) ''user-agent'' of None \<Rightarrow> [] | Some v \<Rightarrow> v) ''Xcode/'' \<and>
   serve \<lparr>http_method = ''GET'', http_url = ''/v1/models'',
         http_headers = [(''user-agent'', ''curl/8.0'')]\<rparr> =
     ByHook \<lparr>http_code = 403,
             http_body = ''{'' @ dquote @ ''error'' @ dquote @ '':'' @ dquote @ ''Forbidden''
                                  @ dquote @ ''}'' @ [CHR 0x0A]\<rparr> \<and>
   \<not> startsWith (case map_of (http_headers \<lparr>http_method = ''POST'', http_url = ''/v1/chat/completions'',
         http_headers = []\<rparr>) ''user-agent'' of None \<Rightarrow> [] | Some v \<Rightarrow> v) ''Xcode/'' \<and>
   serve \<lparr>http_method = ''POST'', http_url = ''/v1/chat/completions'', http_headers = []\<rparr> =
     ByHook \<lparr>http_code = 403,
             http_body = ''{'' @ dquote @ ''error'' @ dquote @ '':'' @ dquote @ ''Forbidden''
                                  @ dquote @ ''}'' @ [CHR 0x0A]\<rparr> \<and>
   serve \<lparr>http_method = ''OPTIONS'', http_url = ''/v1/models'',
         http_headers = [(''user-agent'', ''curl/8.0'')]\<rparr> =
     ByCors \<lparr>http_code = 400, http_body = ''Invalid Preflight Request''\<rparr>"
proof -
  have h1: "\<not> startsWith (case map_of (http_headers \<lparr>http_method = ''GET'', http_url = ''/v1/models'',
         http_headers = [(''user-agent'', ''curl/8.0'')]\<rparr>) ''user-agent'' of None \<Rightarrow> [] | Some v \<Rightarrow> v) ''Xcode/''"
    by (simp add: startsWith_def)
  have h2: "\<not> startsWith (case map_of (http_headers \<lparr>http_method = ''POST'', http_url = ''/v1/chat/completions'',
         http_headers = []\<rparr>) ''user-agent'' of None \<Rightarrow> [] | Some v \<Rightarrow> v) ''Xcode/''"
    by (simp add: startsWith_def)
  have h3: "\<not> startsWith (case map_of (http_headers \<lparr>http_method = ''OPTIONS'', http_url = ''/v1/models'',
         http_headers = [(''user-agent'', ''curl/8.0'')]\<rparr>) ''user-agent'' of None \<Rightarrow> [] | Some v \<Rightarrow> v) ''Xcode/''"
    by (simp add: startsWith_def)
  from onRequest_forbidden [OF h1] have a: "serve \<lparr>http_method = ''GET'', http_url = ''/v1/models'',
         http_headers = [(''user-agent'', ''curl/8.0'')]\<rparr> =
     ByHook \<lparr>http_code = 403,
             http_body = ''{'' @ dquote @ ''error'' @ dquote @ '':'' @ dquote @ ''Forbidden''
                                  @ dquote @ ''}'' @ [CHR 0x0A]\<rparr>" by simp
  from onRequest_forbidden [OF h2] have b: "serve \<lparr>http_method = ''POST'',
         http_url = ''/v1/chat/completions'', http_headers = []\<rparr> =
     ByHook \<lparr>http_code = 403,
             http_body = ''{'' @ dquote @ ''error'' @ dquote @ '':'' @ dquote @ ''Forbidden''
                                  @ dquote @ ''}'' @ [CHR 0x0A]\<rparr>" by simp
  from onRequest_forbidden [OF h3] have c: "serve \<lparr>http_method = ''OPTIONS'', http_url = ''/v1/models'',
         http_headers = [(''user-agent'', ''curl/8.0'')]\<rparr> =
     ByCors \<lparr>http_code = 400, http_body = ''Invalid Preflight Request''\<rparr>"
    by (simp add: headerOf_def)
  from h1 a h2 b c show ?thesis by (intro conjI)
qed

lemma serve_xcode_routed:
  "serve \<lparr>http_method = ''GET'', http_url = ''/v1/models'',
         http_headers = [(''user-agent'', ''Xcode/24577 CFNetwork/3860.300.31 Darwin/25.2.0'')]\<rparr>
     = Routed"
  by (simp add: serve_def corsOnRequest_def onRequest_def startsWith_def)

section \<open>The two versions of formatCompaction\<close>





lemma formatCompaction_examples:
  "formatCompaction_guarded
     (JObj [(''preCompactionTokens'', JNum ''1200''), (''postCompactionTokens'', JNum ''450'')])
     = Inr ''1200 to 450 tokens''"
  "formatCompaction_cast
     (JObj [(''preCompactionTokens'', JObj [(''toString'', JNum ''1'')]), (''postCompactionTokens'', JNum ''450'')])
     = Inl TypeError"
  "formatCompaction_cast
     (JObj [(''preCompactionTokens'', JArr [JNum ''1'', JNull, JStr ''a'']), (''postCompactionTokens'', JNum ''0'')])
     = Inr ''1,,a to 0 tokens''"
  by (simp_all add: formatCompaction_cast_def formatCompaction_guarded_def tokensText_def)

section \<open>Session end, unexpected requests and routing\<close>

lemma rejectAll_fields:
  "cachedTools (rejectAll msg ps s) = cachedTools s"
  "expectedByName (rejectAll msg ps s) = expectedByName s"
  "pendingByCallId (rejectAll msg ps s) = pendingByCallId s"
  "p_onSessionEnd (rejectAll msg ps s) = p_onSessionEnd s"
  "p_sessionActive (rejectAll msg ps s) = p_sessionActive s"
  "p_hadError (rejectAll msg ps s) = p_hadError s"
  "nextTimer (rejectAll msg ps s) = nextTimer s"
  by (induction msg ps s rule: rejectAll.induct) simp_all

lemma rejectAll_trace:
  "trace (rejectAll msg ps s) = trace s @ rejections msg ps"
  by (induction msg ps s rule: rejectAll.induct) (simp_all add: rejections_def)

lemma rejectAll_timers:
  "timers (rejectAll msg ps s) h = (if h \<in> (timeout \<circ> snd) ` set ps then None else timers s h)"
  by (induction msg ps s rule: rejectAll.induct) auto

lemma rejections_mem:
  "(cid, p) \<in> set ps \<Longrightarrow>
     ClearTimeout (timeout p) \<in> set (rejections msg ps) \<and> Called (reject p) msg \<in> set (rejections msg ps)"
  by (auto simp: rejections_def)

lemma fireSessionEnd_fields:
  "cachedTools (fireSessionEnd s) = cachedTools s"
  "expectedByName (fireSessionEnd s) = expectedByName s"
  "pendingByCallId (fireSessionEnd s) = pendingByCallId s"
  "p_sessionActive (fireSessionEnd s) = p_sessionActive s"
  "p_hadError (fireSessionEnd s) = p_hadError s"
  "nextTimer (fireSessionEnd s) = nextTimer s"
  "timers (fireSessionEnd s) = timers s"
  "p_onSessionEnd (fireSessionEnd s) = None"
  "trace (fireSessionEnd s) = trace s @ (case p_onSessionEnd s of None \<Rightarrow> [] | Some cb \<Rightarrow> [SessionEnd cb])"
  by (simp_all add: fireSessionEnd_def split: option.splits)

lemma markSessionInactive_fields:
  "cachedTools (markSessionInactive s) = cachedTools s"
  "expectedByName (markSessionInactive s) = []"
  "pendingByCallId (markSessionInactive s) = []"
  "p_sessionActive (markSessionInactive s) = False"
  "p_hadError (markSessionInactive s) = p_hadError s"
  "nextTimer (markSessionInactive s) = nextTimer s"
  "p_onSessionEnd (markSessionInactive s) = None"
  by (simp_all add: markSessionInactive_def Let_def fireSessionEnd_fields rejectAll_fields)

lemma markSessionInactive_trace:
  "trace (markSessionInactive s) =
     trace s @ rejections ''Session ended'' (pendingByCallId s)
       @ (case p_onSessionEnd s of None \<Rightarrow> [] | Some cb \<Rightarrow> [SessionEnd cb])"
  by (simp add: markSessionInactive_def Let_def fireSessionEnd_fields rejectAll_fields rejectAll_trace)

lemma markSessionInactive_timers:
  "timers (markSessionInactive s) h =
     (if h \<in> (timeout \<circ> snd) ` set (pendingByCallId s) then None else timers s h)"
  by (simp add: markSessionInactive_def Let_def fireSessionEnd_fields rejectAll_timers)

text \<open>
  C3.  After \<^verbatim>\<open>markSessionInactive\<close>, whatever the state was: \<open>hasPending\<close> is false, no
  queue of expected ids is left, the table of pending calls is empty, every entry that
  was in it has had its timer cleared and its reject called with \<^verbatim>\<open>Session ended\<close>, and
  the session-end callback, if one was set, has been fired and is cleared.  The last
  conjunct gives the exact events added to the trace, in order.
\<close>

theorem markSessionInactive_drains:
  "\<not> hasPending (markSessionInactive s) \<and>
   expectedByName (markSessionInactive s) = [] \<and>
   (\<forall>nm. queueOf (markSessionInactive s) nm = []) \<and>
   pendingByCallId (markSessionInactive s) = [] \<and>
   (\<forall>(cid, p) \<in> set (pendingByCallId s).
      timers (markSessionInactive s) (timeout p) = None \<and>
      ClearTimeout (timeout p) \<in> set (drop (length (trace s)) (trace (markSessionInactive s))) \<and>
      Called (reject p) ''Session ended''
        \<in> set (drop (length (trace s)) (trace (markSessionInactive s)))) \<and>
   p_onSessionEnd (markSessionInactive s) = None \<and>
   (\<forall>cb. p_onSessionEnd s = Some cb \<longrightarrow>
      SessionEnd cb \<in> set (drop (length (trace s)) (trace (markSessionInactive s)))) \<and>
   trace (markSessionInactive s) =
     trace s @ concat (map (\<lambda>(cid, p). [ClearTimeout (timeout p), Called (reject p) ''Session ended''])
                         (pendingByCallId s))
       @ (case p_onSessionEnd s of None \<Rightarrow> [] | Some cb \<Rightarrow> [SessionEnd cb])"
proof (intro conjI)
  show "\<not> hasPending (markSessionInactive s)"
    by (simp add: hasPending_def markSessionInactive_fields)
  show "expectedByName (markSessionInactive s) = []" by (simp add: markSessionInactive_fields)
  show "\<forall>nm. queueOf (markSessionInactive s) nm = []"
    by (simp add: queueOf_def markSessionInactive_fields)
  show "pendingByCallId (markSessionInactive s) = []" by (simp add: markSessionInactive_fields)
  show "p_onSessionEnd (markSessionInactive s) = None" by (simp add: markSessionInactive_fields)
  show "\<forall>cb. p_onSessionEnd s = Some cb \<longrightarrow>
      SessionEnd cb \<in> set (drop (length (trace s)) (trace (markSessionInactive s)))"
    by (simp add: markSessionInactive_trace)
  show "trace (markSessionInactive s) =
     trace s @ concat (map (\<lambda>(cid, p). [ClearTimeout (timeout p), Called (reject p) ''Session ended''])
                         (pendingByCallId s))
       @ (case p_onSessionEnd s of None \<Rightarrow> [] | Some cb \<Rightarrow> [SessionEnd cb])"
    by (simp add: markSessionInactive_trace rejections_def)
  show "\<forall>(cid, p) \<in> set (pendingByCallId s).
      timers (markSessionInactive s) (timeout p) = None \<and>
      ClearTimeout (timeout p) \<in> set (drop (length (trace s)) (trace (markSessionInactive s))) \<and>
      Called (reject p) ''Session ended''
        \<in> set (drop (length (trace s)) (trace (markSessionInactive s)))"
  proof (clarify, intro conjI)
    fix cid p assume m: "(cid, p) \<in> set (pendingByCallId s)"
    then have "timeout p \<in> (timeout \<circ> snd) ` set (pendingByCallId s)" by force
    then show "timers (markSessionInactive s) (timeout p) = None"
      by (simp add: markSessionInactive_timers)
    from rejections_mem[OF m, of "''Session ended''"]
    show "ClearTimeout (timeout p) \<in> set (drop (length (trace s)) (trace (markSessionInactive s)))"
      and "Called (reject p) ''Session ended''
        \<in> set (drop (length (trace s)) (trace (markSessionInactive s)))"
      by (simp_all add: markSessionInactive_trace)
  qed
qed

lemma parked_eq: "pendingByCallId parked =
   [(''tc1'', \<lparr>toolCallId = ''tc1'', resolve = Resolve 0, reject = Reject 0, timeout = 0\<rparr>)]"
  "trace parked = []" "p_onSessionEnd parked = Some 7"
  by (simp_all add: parked_def onSessionEnd_def registerMCPRequest_def registerExpected_def
       markSessionActive_def initial_def addPending_def Let_def)

theorem markSessionInactive_drains_witness:
  "(''tc1'', \<lparr>toolCallId = ''tc1'', resolve = Resolve 0, reject = Reject 0, timeout = 0\<rparr>)
      \<in> set (pendingByCallId parked) \<and>
   p_onSessionEnd parked = Some 7 \<and>
   \<not> hasPending (markSessionInactive parked) \<and>
   timers (markSessionInactive parked) 0 = None \<and>
   trace (markSessionInactive parked) =
     [ClearTimeout 0, Called (Reject 0) ''Session ended'', SessionEnd 7]"
  using markSessionInactive_drains [of parked]
  by (simp add: parked_eq)

text \<open>
  C4.  When the queue of the name is absent or empty, \<^verbatim>\<open>registerMCPRequest\<close> calls reject
  at once with the message \<^verbatim>\<open>No expected tool call for "<name>"\<close> (the name between
  double quotes, as the template literal of the source has it) and changes nothing in
  the state: the pending table, the timers and the queues are as before.
\<close>

theorem registerMCPRequest_unexpected:
  assumes "map_of (expectedByName s) nm = None \<or> map_of (expectedByName s) nm = Some []"
  shows "registerMCPRequest nm res rej s =
           s\<lparr>trace := trace s @ [Called rej (''No expected tool call for '' @ dquote @ nm @ dquote)]\<rparr>
         \<and> pendingByCallId (registerMCPRequest nm res rej s) = pendingByCallId s
         \<and> timers (registerMCPRequest nm res rej s) = timers s
         \<and> nextTimer (registerMCPRequest nm res rej s) = nextTimer s
         \<and> expectedByName (registerMCPRequest nm res rej s) = expectedByName s"
  using assms by (auto simp: registerMCPRequest_def)

theorem registerMCPRequest_unexpected_witness:
  "(map_of (expectedByName initial) ''Read'' = None \<or> map_of (expectedByName initial) ''Read'' = Some []) \<and>
   trace (registerMCPRequest ''Read'' (Resolve 0) (Reject 0) initial) =
     [Called (Reject 0) (''No expected tool call for '' @ dquote @ ''Read'' @ dquote)] \<and>
   pendingByCallId (registerMCPRequest ''Read'' (Resolve 0) (Reject 0) initial) = [] \<and>
   nextTimer (registerMCPRequest ''Read'' (Resolve 0) (Reject 0) initial) = 0"
proof -
  have h: "map_of (expectedByName initial) ''Read'' = None \<or> map_of (expectedByName initial) ''Read'' = Some []"
    by (simp add: initial_def)
  from registerMCPRequest_unexpected [OF h, of "Resolve 0" "Reject 0"] h show ?thesis
    by (simp add: initial_def)
qed

text \<open>
  C2.  The claim asks for the new-session branch whenever the last message is a user
  message with plain text, whatever the bridge state.  The handler does not look at the
  messages: it takes the continuation branch whenever \<^verbatim>\<open>state.hasPending\<close> or
  \<^verbatim>\<open>state.sessionActive\<close> holds.  Failing input: the request
  \<^verbatim>\<open>{model, messages: [{role: "user", content: "Hello"}]}\<close> arriving while the session of
  an earlier request is active, or while a tool call is expected or pending.  The first
  such request, on the initial state, opens a session; a second one that arrives once
  that session is active is treated as a continuation of it and opens none.
\<close>

theorem handleMessages_misroutes_new_request:
  "lastIsPlainUser \<lparr>req_model = ''claude'',
       req_messages = [\<lparr>msg_role = ''user'', msg_content = Plain ''Hello''\<rparr>], req_tools = None\<rparr> \<and>
   handleMessages_branch
     (Some \<lparr>req_model = ''claude'',
       req_messages = [\<lparr>msg_role = ''user'', msg_content = Plain ''Hello''\<rparr>], req_tools = None\<rparr>)
     initial = NewSession \<and>
   handleMessages_branch
     (Some \<lparr>req_model = ''claude'',
       req_messages = [\<lparr>msg_role = ''user'', msg_content = Plain ''Hello''\<rparr>], req_tools = None\<rparr>)
     (markSessionActive initial) = Continuation \<and>
   handleMessages_branch
     (Some \<lparr>req_model = ''claude'',
       req_messages = [\<lparr>msg_role = ''user'', msg_content = Plain ''Hello''\<rparr>], req_tools = None\<rparr>)
     (registerExpected ''tc1'' ''Read'' initial) = Continuation \<and>
   handleMessages_branch
     (Some \<lparr>req_model = ''claude'',
       req_messages = [\<lparr>msg_role = ''user'', msg_content = Plain ''Hello''\<rparr>], req_tools = None\<rparr>)
     parked = Continuation"
  by (simp add: lastIsPlainUser_def handleMessages_branch_def hasPending_def sessionActive_def
      markSessionActive_def registerExpected_def initial_def parked_eq)

section \<open>Callbacks are called at most once\<close>



lemma settled_append: "settled k (t @ u) = settled k t + settled k u"
  by (simp add: settled_def)

lemma settled_simps:
  "settled k [] = 0"
  "settled k [Called (Resolve j) x] = (if j = k then 1 else 0)"
  "settled k [Called (Reject j) x] = (if j = k then 1 else 0)"
  "settled k [ClearTimeout h] = 0"
  "settled k [SessionEnd c] = 0"
  "settled k (ClearTimeout h # t) = settled k t"
  by (simp_all add: settled_def)

lemma settled_sessionEnd:
  "settled k (case c of None \<Rightarrow> [] | Some cb \<Rightarrow> [SessionEnd cb]) = 0"
  by (cases c) (simp_all add: settled_def)

lemma settled_rejections:
  "settled k (rejections msg ps) = length (filter (\<lambda>e. callsOf k (Called (reject (snd e)) msg)) ps)"
  by (induction ps) (auto simp: rejections_def settled_def)

lemma filter_le_one:
  assumes "distinct (map f xs)"
    and "\<And>x y. x \<in> set xs \<Longrightarrow> y \<in> set xs \<Longrightarrow> P x \<Longrightarrow> P y \<Longrightarrow> f x = f y"
  shows "length (filter P xs) \<le> 1"
  using assms
proof (induction xs)
  case Nil
  then show ?case by simp
next
  case (Cons x xs)
  from Cons.prems(1) have d: "distinct (map f xs)" and nx: "f x \<notin> f ` set xs" by simp_all
  show ?case
  proof (cases "P x")
    case True
    have "filter P xs = []"
    proof (rule ccontr)
      assume "filter P xs \<noteq> []"
      then obtain y where y: "y \<in> set xs" "P y"
        by (auto simp: filter_empty_conv)
      have mx: "x \<in> set (x # xs)" and my: "y \<in> set (x # xs)" using y(1) by simp_all
      from Cons.prems(2)[OF mx my True y(2)] have "f x = f y" .
      with y(1) nx show False by (metis imageI)
    qed
    with True show ?thesis by simp
  next
    case False
    have "length (filter P xs) \<le> 1"
    proof (rule Cons.IH[OF d])
      fix u v assume "u \<in> set xs" "v \<in> set xs" "P u" "P v"
      then show "f u = f v" by (intro Cons.prems(2)) simp_all
    qed
    with False show ?thesis by simp
  qed
qed

lemma inv1I:
  assumes "\<And>h cid cb. timers s h = Some (cid, cb) \<Longrightarrow>
             h < nextTimer s \<and> (\<exists>k<n. cb = Reject k \<and> settled k (trace s) = 0)"
    and "\<And>h h' cid cid' cb. timers s h = Some (cid, cb) \<Longrightarrow> timers s h' = Some (cid', cb) \<Longrightarrow> h = h'"
    and "\<And>cid p. map_of (pendingByCallId s) cid = Some p \<Longrightarrow>
             timers s (timeout p) = Some (cid, reject p) \<and>
             (\<exists>k. resolve p = Resolve k \<and> reject p = Reject k)"
    and "distinct (map fst (pendingByCallId s))"
    and "\<And>k. settled k (trace s) \<le> 1"
    and "\<And>k. n \<le> k \<Longrightarrow> settled k (trace s) = 0"
  shows "inv1 n s"
  unfolding inv1_def using assms by blast

lemma inv1D_timer:
  "inv1 n s \<Longrightarrow> timers s h = Some (cid, cb) \<Longrightarrow>
     h < nextTimer s \<and> (\<exists>k<n. cb = Reject k \<and> settled k (trace s) = 0)"
  unfolding inv1_def by blast

lemma inv1D_inj:
  "inv1 n s \<Longrightarrow> timers s h = Some (cid, cb) \<Longrightarrow> timers s h' = Some (cid', cb) \<Longrightarrow> h = h'"
  unfolding inv1_def by blast

lemma inv1D_pending:
  "inv1 n s \<Longrightarrow> map_of (pendingByCallId s) cid = Some p \<Longrightarrow>
     timers s (timeout p) = Some (cid, reject p) \<and> (\<exists>k. resolve p = Resolve k \<and> reject p = Reject k)"
  unfolding inv1_def by blast

lemma inv1D_distinct: "inv1 n s \<Longrightarrow> distinct (map fst (pendingByCallId s))"
  unfolding inv1_def by blast

lemma inv1D_settled: "inv1 n s \<Longrightarrow> settled k (trace s) \<le> 1"
  unfolding inv1_def by blast

lemma inv1D_fresh: "inv1 n s \<Longrightarrow> n \<le> k \<Longrightarrow> settled k (trace s) = 0"
  unfolding inv1_def by blast

lemma inv1_initial: "inv1 0 initial"
  by (rule inv1I) (simp_all add: initial_def settled_def)

lemma inv1_expected_upd:
  "inv1 n s \<Longrightarrow> inv1 n (s\<lparr>expectedByName := e\<rparr>)"
  by (simp add: inv1_def)

lemma inv1_registerExpected:
  "inv1 n s \<Longrightarrow> inv1 n (registerExpected cid nm s)"
  by (cases "map_of (expectedByName s) nm") (simp_all add: registerExpected_def inv1_expected_upd)

lemma inv1_mono:
  assumes i: "inv1 n s"
  shows "inv1 (Suc n) s"
proof (rule inv1I)
  fix h cid cb assume "timers s h = Some (cid, cb)"
  from inv1D_timer[OF i this]
  show "h < nextTimer s \<and> (\<exists>k<Suc n. cb = Reject k \<and> settled k (trace s) = 0)"
    using less_Suc_eq by blast
next
  fix k assume "Suc n \<le> k"
  then have "n \<le> k" by simp
  from inv1D_fresh[OF i this] show "settled k (trace s) = 0" .
qed (use i in \<open>blast dest: inv1D_inj inv1D_pending inv1D_distinct inv1D_settled\<close>)+

lemma inv1_reject_now:
  assumes i: "inv1 n s"
  shows "inv1 (Suc n) (s\<lparr>trace := trace s @ [Called (Reject n) msg]\<rparr>)"
    (is "inv1 _ ?s'")
proof (rule inv1I)
  fix h cid cb assume "timers ?s' h = Some (cid, cb)"
  then have t: "timers s h = Some (cid, cb)" by simp
  from inv1D_timer[OF i t] obtain k where k: "h < nextTimer s" "k < n" "cb = Reject k"
    "settled k (trace s) = 0" by blast
  from k have "settled k (trace ?s') = 0" by (simp add: settled_append settled_simps)
  with k show "h < nextTimer ?s' \<and> (\<exists>k<Suc n. cb = Reject k \<and> settled k (trace ?s') = 0)"
    by (intro conjI exI[of _ k]) simp_all
next
  fix h h' cid cid' cb
  assume "timers ?s' h = Some (cid, cb)" "timers ?s' h' = Some (cid', cb)"
  then show "h = h'" using inv1D_inj[OF i, of h cid cb h' cid'] by simp
next
  fix cid p assume "map_of (pendingByCallId ?s') cid = Some p"
  then show "timers ?s' (timeout p) = Some (cid, reject p) \<and>
             (\<exists>k. resolve p = Resolve k \<and> reject p = Reject k)"
    using inv1D_pending[OF i, of cid p] by simp
next
  show "distinct (map fst (pendingByCallId ?s'))" using inv1D_distinct[OF i] by simp
next
  fix k
  show "settled k (trace ?s') \<le> 1"
  proof (cases "k = n")
    case True
    with inv1D_fresh[OF i, of n] show ?thesis by (simp add: settled_append settled_simps)
  next
    case False
    with inv1D_settled[OF i, of k] show ?thesis by (simp add: settled_append settled_simps)
  qed
next
  fix k assume "Suc n \<le> k"
  then have "n \<le> k" "n \<noteq> k" by simp_all
  with inv1D_fresh[OF i, of k] show "settled k (trace ?s') = 0"
    by (simp add: settled_append settled_simps)
qed

lemma addPending_fields:
  "timers (addPending cid res rej s) = (timers s)(nextTimer s \<mapsto> (cid, rej))"
  "nextTimer (addPending cid res rej s) = Suc (nextTimer s)"
  "pendingByCallId (addPending cid res rej s) =
     AList.update cid \<lparr>toolCallId = cid, resolve = res, reject = rej, timeout = nextTimer s\<rparr>
       (pendingByCallId s)"
  "trace (addPending cid res rej s) = trace s"
  "expectedByName (addPending cid res rej s) = expectedByName s"
  "p_onSessionEnd (addPending cid res rej s) = p_onSessionEnd s"
  "p_sessionActive (addPending cid res rej s) = p_sessionActive s"
  by (simp_all add: addPending_def Let_def)

lemma inv1_addPending:
  assumes i: "inv1 n s"
  shows "inv1 (Suc n) (addPending cid (Resolve n) (Reject n) s)"
    (is "inv1 _ ?s'")
proof (rule inv1I)
  fix h c cb assume t': "timers ?s' h = Some (c, cb)"
  show "h < nextTimer ?s' \<and> (\<exists>k<Suc n. cb = Reject k \<and> settled k (trace ?s') = 0)"
  proof (cases "h = nextTimer s")
    case True
    with t' have "cb = Reject n" by (simp add: addPending_fields)
    moreover have "settled n (trace s) = 0" using inv1D_fresh[OF i, of n] by simp
    ultimately show ?thesis using True by (simp add: addPending_fields)
  next
    case False
    with t' have t: "timers s h = Some (c, cb)" by (simp add: addPending_fields)
    from inv1D_timer[OF i t] obtain k where k: "h < nextTimer s" "k < n" "cb = Reject k"
      "settled k (trace s) = 0" by blast
    then show ?thesis by (intro conjI exI[of _ k]) (simp_all add: addPending_fields)
  qed
next
  fix h h' c c' cb
  assume t1: "timers ?s' h = Some (c, cb)" and t2: "timers ?s' h' = Some (c', cb)"
  have old: "\<And>x y. timers s x = Some (y, cb) \<Longrightarrow> cb \<noteq> Reject n"
  proof -
    fix x y assume "timers s x = Some (y, cb)"
    from inv1D_timer[OF i this] show "cb \<noteq> Reject n" by auto
  qed
  show "h = h'"
  proof (cases "h = nextTimer s")
    case True
    with t1 have cb: "cb = Reject n" by (simp add: addPending_fields)
    show ?thesis
    proof (cases "h' = nextTimer s")
      case True
      with \<open>h = nextTimer s\<close> show ?thesis by simp
    next
      case False
      with t2 have "timers s h' = Some (c', cb)" by (simp add: addPending_fields)
      from old[OF this] cb show ?thesis by simp
    qed
  next
    case False
    with t1 have a1: "timers s h = Some (c, cb)" by (simp add: addPending_fields)
    show ?thesis
    proof (cases "h' = nextTimer s")
      case True
      with t2 have "cb = Reject n" by (simp add: addPending_fields)
      with old[OF a1] show ?thesis by simp
    next
      case False
      with t2 have "timers s h' = Some (c', cb)" by (simp add: addPending_fields)
      from inv1D_inj[OF i a1 this] show ?thesis .
    qed
  qed
next
  fix c p assume m: "map_of (pendingByCallId ?s') c = Some p"
  show "timers ?s' (timeout p) = Some (c, reject p) \<and>
        (\<exists>k. resolve p = Resolve k \<and> reject p = Reject k)"
  proof (cases "c = cid")
    case True
    with m have "p = \<lparr>toolCallId = cid, resolve = Resolve n, reject = Reject n, timeout = nextTimer s\<rparr>"
      by (simp add: addPending_fields update_conv')
    with True show ?thesis by (simp add: addPending_fields)
  next
    case False
    with m have m0: "map_of (pendingByCallId s) c = Some p"
      by (simp add: addPending_fields update_conv')
    from inv1D_pending[OF i m0] have t: "timers s (timeout p) = Some (c, reject p)"
      and k: "\<exists>k. resolve p = Resolve k \<and> reject p = Reject k" by blast+
    from inv1D_timer[OF i t] have "timeout p \<noteq> nextTimer s" by auto
    with t k show ?thesis by (simp add: addPending_fields)
  qed
next
  show "distinct (map fst (pendingByCallId ?s'))"
    using inv1D_distinct[OF i] by (simp add: addPending_fields distinct_update)
next
  fix k show "settled k (trace ?s') \<le> 1"
    using inv1D_settled[OF i, of k] by (simp add: addPending_fields)
next
  fix k assume "Suc n \<le> k"
  then have "n \<le> k" by simp
  from inv1D_fresh[OF i this] show "settled k (trace ?s') = 0" by (simp add: addPending_fields)
qed

lemma registerMCPRequest_cases:
  "(\<exists>msg. registerMCPRequest nm res rej s = s\<lparr>trace := trace s @ [Called rej msg]\<rparr>) \<or>
   (\<exists>e. registerMCPRequest nm res rej s = s\<lparr>expectedByName := e\<rparr>) \<or>
   (\<exists>e cid. registerMCPRequest nm res rej s = addPending cid res rej (s\<lparr>expectedByName := e\<rparr>))"
proof (cases "map_of (expectedByName s) nm")
  case None
  then have "registerMCPRequest nm res rej s =
      s\<lparr>trace := trace s @ [Called rej (''No expected tool call for '' @ dquote @ nm @ dquote)]\<rparr>"
    by (simp only: registerMCPRequest_def option.case)
  then show ?thesis by blast
next
  case (Some q)
  show ?thesis
  proof (cases q)
    case Nil
    with Some have "registerMCPRequest nm res rej s =
      s\<lparr>trace := trace s @ [Called rej (''No expected tool call for '' @ dquote @ nm @ dquote)]\<rparr>"
      by (simp only: registerMCPRequest_def option.case list.case)
    then show ?thesis by blast
  next
    case (Cons c rest)
    show ?thesis
    proof (cases "c = []")
      case True
      with Some Cons have "registerMCPRequest nm res rej s =
         s\<lparr>expectedByName := (if length rest = 0
              then AList.delete nm (AList.update nm rest (expectedByName s))
              else AList.update nm rest (expectedByName s))\<rparr>"
        by (simp add: registerMCPRequest_def Let_def)
      then show ?thesis by blast
    next
      case False
      with Some Cons have "registerMCPRequest nm res rej s =
         addPending c res rej (s\<lparr>expectedByName := (if length rest = 0
              then AList.delete nm (AList.update nm rest (expectedByName s))
              else AList.update nm rest (expectedByName s))\<rparr>)"
        by (simp add: registerMCPRequest_def Let_def)
      then show ?thesis by blast
    qed
  qed
qed

lemma inv1_registerMCPRequest:
  assumes i: "inv1 n s"
  shows "inv1 (Suc n) (registerMCPRequest nm (Resolve n) (Reject n) s)"
  using registerMCPRequest_cases[of nm "Resolve n" "Reject n" s]
proof (elim disjE exE)
  fix msg assume "registerMCPRequest nm (Resolve n) (Reject n) s = s\<lparr>trace := trace s @ [Called (Reject n) msg]\<rparr>"
  with inv1_reject_now[OF i] show ?thesis by simp
next
  fix e assume "registerMCPRequest nm (Resolve n) (Reject n) s = s\<lparr>expectedByName := e\<rparr>"
  with inv1_mono[OF inv1_expected_upd[OF i]] show ?thesis by simp
next
  fix e cid
  assume "registerMCPRequest nm (Resolve n) (Reject n) s = addPending cid (Resolve n) (Reject n) (s\<lparr>expectedByName := e\<rparr>)"
  with inv1_addPending[OF inv1_expected_upd[OF i]] show ?thesis by simp
qed


lemma inv1_settle:
  assumes i: "inv1 n s" and t: "timers s h = Some (cid, Reject k0)"
    and ev: "\<And>k. settled k evs = (if k = k0 then 1 else 0)"
  shows "inv1 n (s\<lparr>timers := (timers s)(h := None),
                   pendingByCallId := AList.delete cid (pendingByCallId s),
                   trace := trace s @ evs\<rparr>)"
    (is "inv1 n ?s'")
proof (rule inv1I)
  from inv1D_timer[OF i t] have k0: "k0 < n" "settled k0 (trace s) = 0" by auto
  {
    fix h' c cb assume t': "timers ?s' h' = Some (c, cb)"
    then have ne: "h' \<noteq> h" and t0: "timers s h' = Some (c, cb)" by (auto split: if_splits)
    from inv1D_timer[OF i t0] obtain k where k: "h' < nextTimer s" "k < n" "cb = Reject k"
      "settled k (trace s) = 0" by blast
    have "k \<noteq> k0"
    proof
      assume "k = k0"
      with t0 k have "timers s h' = Some (c, Reject k0)" by simp
      from inv1D_inj[OF i this t] ne show False by simp
    qed
    with k have "settled k (trace ?s') = 0" by (simp add: settled_append ev)
    with k show "h' < nextTimer ?s' \<and> (\<exists>k<n. cb = Reject k \<and> settled k (trace ?s') = 0)"
      by (intro conjI exI[of _ k]) simp_all
  }
  {
    fix h1 h2 c1 c2 cb
    assume "timers ?s' h1 = Some (c1, cb)" "timers ?s' h2 = Some (c2, cb)"
    then have "timers s h1 = Some (c1, cb)" "timers s h2 = Some (c2, cb)"
      by (auto split: if_splits)
    from inv1D_inj[OF i this] show "h1 = h2" .
  }
  {
    fix c p assume m: "map_of (pendingByCallId ?s') c = Some p"
    then have ne: "c \<noteq> cid" and m0: "map_of (pendingByCallId s) c = Some p"
      by (auto simp: delete_conv' split: if_splits)
    from inv1D_pending[OF i m0] have tp: "timers s (timeout p) = Some (c, reject p)"
      and k: "\<exists>k. resolve p = Resolve k \<and> reject p = Reject k" by blast+
    from tp t ne have "timeout p \<noteq> h" by auto
    with tp k show "timers ?s' (timeout p) = Some (c, reject p) \<and>
        (\<exists>k. resolve p = Resolve k \<and> reject p = Reject k)" by simp
  }
  show "distinct (map fst (pendingByCallId ?s'))"
    using inv1D_distinct[OF i] by (simp add: distinct_delete)
  {
    fix k show "settled k (trace ?s') \<le> 1"
      using inv1D_settled[OF i, of k] k0 by (cases "k = k0") (simp_all add: settled_append ev)
  }
  {
    fix k assume "n \<le> k"
    with k0 have "k \<noteq> k0" by simp
    with inv1D_fresh[OF i \<open>n \<le> k\<close>] show "settled k (trace ?s') = 0"
      by (simp add: settled_append ev)
  }
qed

lemma inv1_resolveToolCall:
  assumes i: "inv1 n s"
  shows "inv1 n (snd (resolveToolCall cid result s))"
proof (cases "map_of (pendingByCallId s) cid")
  case None
  with i show ?thesis by (simp add: resolveToolCall_def)
next
  case (Some p)
  from inv1D_pending[OF i Some] obtain k0 where tp: "timers s (timeout p) = Some (cid, reject p)"
    and k0: "resolve p = Resolve k0" "reject p = Reject k0" by blast
  have ev: "\<And>k. settled k [ClearTimeout (timeout p), Called (Resolve k0) result] = (if k = k0 then 1 else 0)"
    by (simp add: settled_def)
  from tp k0 have "timers s (timeout p) = Some (cid, Reject k0)" by simp
  from inv1_settle[OF i this ev] Some k0 show ?thesis by (simp add: resolveToolCall_def)
qed

lemma inv1_timeoutFires:
  assumes i: "inv1 n s"
  shows "inv1 n (timeoutFires h s)"
proof (cases "timers s h")
  case None
  with i show ?thesis by (simp add: timeoutFires_def)
next
  case (Some a)
  obtain cid rej where a: "a = (cid, rej)" by (cases a)
  with Some have t: "timers s h = Some (cid, rej)" by simp
  from inv1D_timer[OF i t] obtain k0 where k0: "rej = Reject k0" by blast
  have ev: "\<And>k. settled k [Called (Reject k0) (''Tool call '' @ cid @ '' timed out'')] = (if k = k0 then 1 else 0)"
    by (simp add: settled_def)
  from t k0 have "timers s h = Some (cid, Reject k0)" by simp
  from inv1_settle[OF i this ev] t k0 show ?thesis by (simp add: timeoutFires_def)
qed

lemma pending_entry:
  assumes i: "inv1 n s" and m: "(c, p) \<in> set (pendingByCallId s)"
  shows "timers s (timeout p) = Some (c, reject p) \<and> (\<exists>k. resolve p = Resolve k \<and> reject p = Reject k)"
proof -
  from inv1D_distinct[OF i] m have "map_of (pendingByCallId s) c = Some p" by simp
  from inv1D_pending[OF i this] show ?thesis .
qed

lemma count_rejections_le:
  assumes i: "inv1 n s"
  shows "length (filter (\<lambda>e. callsOf k (Called (reject (snd e)) msg)) (pendingByCallId s)) \<le> 1"
proof (rule filter_le_one[where f = fst])
  show "distinct (map fst (pendingByCallId s))" by (rule inv1D_distinct[OF i])
next
  fix x y assume x: "x \<in> set (pendingByCallId s)" and y: "y \<in> set (pendingByCallId s)"
    and px: "callsOf k (Called (reject (snd x)) msg)" and py: "callsOf k (Called (reject (snd y)) msg)"
  obtain cx p where xe: "x = (cx, p)" by (cases x)
  obtain cy q where ye: "y = (cy, q)" by (cases y)
  from pending_entry[OF i x[unfolded xe]] obtain kx where tx: "timers s (timeout p) = Some (cx, reject p)"
    and kx: "reject p = Reject kx" by blast
  from pending_entry[OF i y[unfolded ye]] obtain ky where ty: "timers s (timeout q) = Some (cy, reject q)"
    and ky: "reject q = Reject ky" by blast
  from px xe kx have "kx = k" by simp
  moreover from py ye ky have "ky = k" by simp
  ultimately have rq: "reject q = reject p" using kx ky by simp
  from ty rq have ty': "timers s (timeout q) = Some (cy, reject p)" by simp
  from inv1D_inj[OF i tx ty'] have "timeout p = timeout q" .
  with tx ty have "cx = cy" by simp
  with xe ye show "fst x = fst y" by simp
qed

lemma count_rejections_pos:
  assumes i: "inv1 n s"
    and pos: "0 < length (filter (\<lambda>e. callsOf k (Called (reject (snd e)) msg)) (pendingByCallId s))"
  shows "\<exists>c p. (c, p) \<in> set (pendingByCallId s) \<and> reject p = Reject k \<and>
               timers s (timeout p) = Some (c, Reject k)"
proof -
  from pos obtain e where e: "e \<in> set (pendingByCallId s)" "callsOf k (Called (reject (snd e)) msg)"
    by (auto simp: filter_empty_conv)
  obtain c p where ee: "e = (c, p)" by (cases e)
  from pending_entry[OF i e(1)[unfolded ee]] obtain k' where t: "timers s (timeout p) = Some (c, reject p)"
    and k': "reject p = Reject k'" by blast
  from e(2) ee k' have "k' = k" by simp
  with t k' e(1) ee show ?thesis by auto
qed

lemma inv1_markSessionInactive:
  assumes i: "inv1 n s"
  shows "inv1 n (markSessionInactive s)"
    (is "inv1 n ?s'")
proof (rule inv1I)
  let ?cnt = "\<lambda>k. length (filter (\<lambda>e. callsOf k (Called (reject (snd e)) ''Session ended'')) (pendingByCallId s))"
  have tr: "\<And>k. settled k (trace ?s') = settled k (trace s) + ?cnt k"
    by (simp add: markSessionInactive_trace settled_append settled_rejections settled_sessionEnd)
  {
    fix h c cb assume t': "timers ?s' h = Some (c, cb)"
    then have nh: "h \<notin> (timeout \<circ> snd) ` set (pendingByCallId s)" and t0: "timers s h = Some (c, cb)"
      by (auto simp: markSessionInactive_timers split: if_splits)
    from inv1D_timer[OF i t0] obtain k where k: "h < nextTimer s" "k < n" "cb = Reject k"
      "settled k (trace s) = 0" by blast
    have "?cnt k = 0"
    proof (rule ccontr)
      assume "?cnt k \<noteq> 0"
      then have "0 < ?cnt k" by simp
      from count_rejections_pos[OF i this] obtain c' p where
        m: "(c', p) \<in> set (pendingByCallId s)" and tp: "timers s (timeout p) = Some (c', Reject k)"
        by blast
      from t0 k have "timers s h = Some (c, Reject k)" by simp
      from inv1D_inj[OF i this tp] have "h = timeout p" .
      with m nh show False by force
    qed
    with k tr have "settled k (trace ?s') = 0" by simp
    with k show "h < nextTimer ?s' \<and> (\<exists>k<n. cb = Reject k \<and> settled k (trace ?s') = 0)"
      by (intro conjI exI[of _ k]) (simp_all add: markSessionInactive_fields)
  }
  {
    fix h1 h2 c1 c2 cb
    assume "timers ?s' h1 = Some (c1, cb)" "timers ?s' h2 = Some (c2, cb)"
    then have "timers s h1 = Some (c1, cb)" "timers s h2 = Some (c2, cb)"
      by (auto simp: markSessionInactive_timers split: if_splits)
    from inv1D_inj[OF i this] show "h1 = h2" .
  }
  {
    fix c p assume "map_of (pendingByCallId ?s') c = Some p"
    then show "timers ?s' (timeout p) = Some (c, reject p) \<and>
        (\<exists>k. resolve p = Resolve k \<and> reject p = Reject k)"
      by (simp add: markSessionInactive_fields)
  }
  show "distinct (map fst (pendingByCallId ?s'))" by (simp add: markSessionInactive_fields)
  {
    fix k
    show "settled k (trace ?s') \<le> 1"
    proof (cases "?cnt k = 0")
      case True
      with tr inv1D_settled[OF i, of k] show ?thesis by simp
    next
      case False
      then have pos: "0 < ?cnt k" by simp
      from count_rejections_pos[OF i pos] obtain c p where
        m: "(c, p) \<in> set (pendingByCallId s)" and tp: "timers s (timeout p) = Some (c, Reject k)"
        by blast
      from inv1D_timer[OF i tp] have "settled k (trace s) = 0" by auto
      with tr count_rejections_le[OF i, of k "''Session ended''"] show ?thesis by simp
    qed
  }
  {
    fix k assume nk: "n \<le> k"
    have "?cnt k = 0"
    proof (rule ccontr)
      assume "?cnt k \<noteq> 0"
      then have "0 < ?cnt k" by simp
      from count_rejections_pos[OF i this] obtain c p where
        m: "(c, p) \<in> set (pendingByCallId s)" and tp: "timers s (timeout p) = Some (c, Reject k)"
        by blast
      from inv1D_timer[OF i tp] nk show False by auto
    qed
    with tr inv1D_fresh[OF i nk] show "settled k (trace ?s') = 0" by simp
  }
qed

lemma inv1_step:
  assumes "inv1 (fst ks) (snd ks)"
  shows "inv1 (fst (step op ks)) (snd (step op ks))"
proof -
  obtain n s where ks: "ks = (n, s)" by (cases ks)
  with assms have i: "inv1 n s" by simp
  show ?thesis
    unfolding ks
    by (cases op)
       (simp_all add: inv1_registerExpected[OF i] inv1_registerMCPRequest[OF i]
          inv1_resolveToolCall[OF i] inv1_markSessionInactive[OF i] inv1_timeoutFires[OF i])
qed

lemma run_snoc: "run (ops @ [op]) = step op (run ops)"
  by (simp add: run_def)

lemma inv1_run: "inv1 (fst (run ops)) (snd (run ops))"
proof (induction ops rule: rev_induct)
  case Nil
  show ?case by (simp add: run_def inv1_initial)
next
  case (snoc op ops)
  then show ?case by (simp only: run_snoc inv1_step)
qed

section \<open>First in, first out\<close>


lemma registerExpected_fields:
  "pendingByCallId (registerExpected cid nm s) = pendingByCallId s"
  "timers (registerExpected cid nm s) = timers s"
  "nextTimer (registerExpected cid nm s) = nextTimer s"
  "trace (registerExpected cid nm s) = trace s"
  by (cases "map_of (expectedByName s) nm"; simp add: registerExpected_def)+












section \<open>Every promise is settled once\<close>

lemma queueOf_trace_upd [simp]: "queueOf (s\<lparr>trace := t\<rparr>) nm = queueOf s nm"
  by (simp add: queueOf_def)

lemma queueOf_settle_upd [simp]:
  "queueOf (s\<lparr>timers := tm, pendingByCallId := pd, trace := t\<rparr>) nm = queueOf s nm"
  by (simp add: queueOf_def)

lemma queueOf_markSessionInactive [simp]: "queueOf (markSessionInactive s) nm = []"
  by (simp add: queueOf_def markSessionInactive_fields)
































lemma run_emptyIdOps: "run emptyIdOps = (1, initial)"
  by (simp add: emptyIdOps_def run_def registerExpected_def registerMCPRequest_def initial_def
      Let_def)



lemma forgotten_step:
  assumes i: "inv1 n s" and f: "forgotten k s" and kn: "k < n"
  shows "forgotten k (snd (step op (n, s)))"
proof (cases op)
  case (RegisterExpected cid nm)
  with f show ?thesis by (simp add: forgotten_def registerExpected_fields)
next
  case (RegisterMCPRequest nm)
  from registerMCPRequest_cases[of nm "Resolve n" "Reject n" s]
  consider msg where "registerMCPRequest nm (Resolve n) (Reject n) s =
        s\<lparr>trace := trace s @ [Called (Reject n) msg]\<rparr>"
    | e where "registerMCPRequest nm (Resolve n) (Reject n) s = s\<lparr>expectedByName := e\<rparr>"
    | e cid where "registerMCPRequest nm (Resolve n) (Reject n) s =
        addPending cid (Resolve n) (Reject n) (s\<lparr>expectedByName := e\<rparr>)"
    by blast
  then have "forgotten k (registerMCPRequest nm (Resolve n) (Reject n) s)"
  proof cases
    case 1
    with f kn show ?thesis by (simp add: forgotten_def settled_def)
  next
    case 2
    with f show ?thesis by (simp add: forgotten_def)
  next
    case 3
    with f kn show ?thesis
      by (auto simp: forgotten_def addPending_fields update_conv' split: if_splits)
  qed
  with RegisterMCPRequest show ?thesis by simp
next
  case (ResolveToolCall cid result)
  show ?thesis
  proof (cases "map_of (pendingByCallId s) cid")
    case None
    with f ResolveToolCall show ?thesis by (simp add: resolveToolCall_def)
  next
    case (Some p)
    from inv1D_pending[OF i Some] obtain j where j: "resolve p = Resolve j" "reject p = Reject j"
      by blast
    from f Some j have "j \<noteq> k" by (auto simp: forgotten_def)
    with f Some j ResolveToolCall show ?thesis
      by (auto simp: forgotten_def resolveToolCall_def settled_def delete_conv' split: if_splits)
  qed
next
  case MarkSessionInactive
  have "filter (\<lambda>e. callsOf k (Called (reject (snd e)) ''Session ended'')) (pendingByCallId s) = []"
  proof (rule filter_False, rule ballI)
    fix e assume e: "e \<in> set (pendingByCallId s)"
    obtain cid p where ep: "e = (cid, p)" by (cases e)
    from inv1D_distinct[OF i] e ep have m: "map_of (pendingByCallId s) cid = Some p" by simp
    from inv1D_pending[OF i m] obtain j where j: "reject p = Reject j" by blast
    from f m have "reject p \<noteq> Reject k" unfolding forgotten_def by blast
    with j ep show "\<not> callsOf k (Called (reject (snd e)) ''Session ended'')" by simp
  qed
  then have r: "settled k (rejections ''Session ended'' (pendingByCallId s)) = 0"
    by (simp add: settled_rejections)
  from f have s0: "settled k (trace s) = 0" unfolding forgotten_def by blast
  have t: "settled k (trace (markSessionInactive s)) = 0"
    by (simp add: markSessionInactive_trace settled_append r s0 settled_sessionEnd)
  from f have "\<forall>h cid. timers (markSessionInactive s) h \<noteq> Some (cid, Reject k)"
    by (simp add: markSessionInactive_timers forgotten_def)
  with t MarkSessionInactive show ?thesis
    by (simp add: forgotten_def markSessionInactive_fields)
next
  case (TimeoutFires h)
  show ?thesis
  proof (cases "timers s h")
    case None
    with f TimeoutFires show ?thesis by (simp add: timeoutFires_def)
  next
    case (Some x)
    obtain cid cb where x: "x = (cid, cb)" by (cases x)
    with Some have t: "timers s h = Some (cid, cb)" by simp
    from inv1D_timer[OF i t] obtain j where j: "cb = Reject j" by blast
    from f t j have "j \<noteq> k" by (auto simp: forgotten_def)
    with f t j TimeoutFires show ?thesis
      by (auto simp: forgotten_def timeoutFires_def settled_def delete_conv' split: if_splits)
  qed
qed

lemma step_fst_mono: "fst ks \<le> fst (step op ks)"
  by (cases ks; cases op) simp_all

lemma run_append: "run (ops @ ops') = fold step ops' (run ops)"
  by (simp add: run_def)

lemma forgotten_run:
  assumes "forgotten k (snd (run ops))" and "k < fst (run ops)"
  shows "forgotten k (snd (run (ops @ ops'))) \<and> k < fst (run (ops @ ops'))"
proof (induction ops' rule: rev_induct)
  case Nil
  from assms show ?case by simp
next
  case (snoc op ops')
  obtain n s where r: "run (ops @ ops') = (n, s)" by (cases "run (ops @ ops')")
  from inv1_run[of "ops @ ops'"] r have i: "inv1 n s" by simp
  from snoc r have f: "forgotten k s" and kn: "k < n" by simp_all
  have e: "run (ops @ ops' @ [op]) = step op (n, s)"
    using run_snoc[of "ops @ ops'" op] r by simp
  from forgotten_step[OF i f kn, of op] step_fst_mono[of "(n, s)" op] kn
  show ?case unfolding e by simp
qed

lemma emptyId_never_called: "settled 0 (trace (snd (run (emptyIdOps @ ops)))) = 0"
proof -
  have "forgotten 0 (snd (run emptyIdOps))" "0 < fst (run emptyIdOps)"
    by (simp_all add: run_emptyIdOps forgotten_def initial_def settled_def)
  from forgotten_run[OF this, of ops] show ?thesis unfolding forgotten_def by blast
qed






end
